theory Spec2Isabelle
  imports Complex_Main
begin

section \<open>Text and bytes\<close>

text \<open>
  A JavaScript string is a sequence of UTF-16 code units, a \<open>Uint8Array\<close> a sequence of
  bytes. Both are lists of naturals here; nothing in the relay does arithmetic on them
  that could leave the range. ASCII literals of the source are written \<open>str ''...''\<close>.
\<close>

type_synonym byte = nat
type_synonym jsstring = "nat list"

definition str :: "string \<Rightarrow> jsstring" where
  "str s = map of_char s"

subsection \<open>\<open>new TextDecoder("utf-8")\<close> and \<open>decoder.decode(value, { stream: true })\<close>\<close>

text \<open>
  The decoder object of the platform (stream.ts line 70), as the Encoding Standard
  describes it: the UTF-8 decoder's state (code point, bytes seen, bytes needed, lower
  and upper boundary of the next byte) and the flag "BOM seen" of the \<open>TextDecoder\<close>.
  The decoder is not fatal: an ill-formed sequence yields U+FFFD.
\<close>

record decoder =
  code_point :: nat
  bytes_seen :: nat
  bytes_needed :: nat
  lower_boundary :: nat
  upper_boundary :: nat
  bom_seen :: bool

definition new_TextDecoder :: decoder where
  "new_TextDecoder = \<lparr>code_point = 0, bytes_seen = 0, bytes_needed = 0,
     lower_boundary = 0x80, upper_boundary = 0xBF, bom_seen = False\<rparr>"

definition reset_sequence :: "decoder \<Rightarrow> decoder" where
  "reset_sequence d = d\<lparr>code_point := 0, bytes_seen := 0, bytes_needed := 0,
     lower_boundary := 0x80, upper_boundary := 0xBF\<rparr>"

text \<open>A byte met when no sequence is open (bytes needed is 0). \<open>b mod 32\<close> is
  \<open>b & 0x1F\<close>, \<open>b mod 16\<close> is \<open>b & 0xF\<close>, \<open>b mod 8\<close> is \<open>b & 0x7\<close>.\<close>

definition utf8_lead :: "decoder \<Rightarrow> byte \<Rightarrow> decoder \<times> nat list" where
  "utf8_lead d b =
     (if b \<le> 0x7F then (d, [b])
      else if 0xC2 \<le> b \<and> b \<le> 0xDF then
        (d\<lparr>code_point := b mod 32, bytes_needed := 1\<rparr>, [])
      else if 0xE0 \<le> b \<and> b \<le> 0xEF then
        (d\<lparr>code_point := b mod 16, bytes_needed := 2,
           lower_boundary := (if b = 0xE0 then 0xA0 else lower_boundary d),
           upper_boundary := (if b = 0xED then 0x9F else upper_boundary d)\<rparr>, [])
      else if 0xF0 \<le> b \<and> b \<le> 0xF4 then
        (d\<lparr>code_point := b mod 8, bytes_needed := 3,
           lower_boundary := (if b = 0xF0 then 0x90 else lower_boundary d),
           upper_boundary := (if b = 0xF4 then 0x8F else upper_boundary d)\<rparr>, [])
      else (d, [0xFFFD]))"

text \<open>One byte through the UTF-8 decoder: the new state and the code points it emits.
  A byte outside the boundaries closes the open sequence with U+FFFD and is read again
  as the first byte of a new one. \<open>c * 64 + b mod 64\<close> is \<open>(c << 6) | (b & 0x3F)\<close>.\<close>

definition utf8_handler :: "decoder \<Rightarrow> byte \<Rightarrow> decoder \<times> nat list" where
  "utf8_handler d b =
     (if bytes_needed d = 0 then utf8_lead d b
      else if b < lower_boundary d \<or> upper_boundary d < b then
        (case utf8_lead (reset_sequence d) b of (d', out) \<Rightarrow> (d', 0xFFFD # out))
      else
        (let d1 = d\<lparr>code_point := code_point d * 64 + b mod 64,
                     bytes_seen := bytes_seen d + 1,
                     lower_boundary := 0x80, upper_boundary := 0xBF\<rparr>
         in if bytes_seen d1 \<noteq> bytes_needed d1 then (d1, [])
            else (reset_sequence d1, [code_point d1])))"

text \<open>A code point as the code units of the resulting string.\<close>

definition utf16 :: "nat \<Rightarrow> jsstring" where
  "utf16 c =
     (if c < 0x10000 then [c]
      else [0xD800 + (c - 0x10000) div 0x400, 0xDC00 + (c - 0x10000) mod 0x400])"

text \<open>Serialising the emitted code points: the first code point of the whole stream is
  dropped when it is the byte order mark U+FEFF (\<open>ignoreBOM\<close> is false by default).\<close>

fun serialize :: "decoder \<Rightarrow> nat list \<Rightarrow> decoder \<times> jsstring" where
  "serialize d [] = (d, [])"
| "serialize d (c # cs) =
     (if bom_seen d then
        (case serialize d cs of (d', out) \<Rightarrow> (d', utf16 c @ out))
      else if c = 0xFEFF then serialize (d\<lparr>bom_seen := True\<rparr>) cs
      else (case serialize (d\<lparr>bom_seen := True\<rparr>) cs of (d', out) \<Rightarrow> (d', utf16 c @ out)))"

text \<open>\<open>decoder.decode(value, { stream: true })\<close>: the text decoded from the bytes of
  \<open>value\<close> and the decoder as it is left for the next call. With \<open>stream: true\<close> an open
  sequence at the end of \<open>value\<close> stays in the decoder.\<close>

fun decode :: "decoder \<Rightarrow> byte list \<Rightarrow> jsstring \<times> decoder" where
  "decode d [] = ([], d)"
| "decode d (b # bs) =
     (case utf8_handler d b of (d1, cps) \<Rightarrow>
        (case serialize d1 cps of (d2, out) \<Rightarrow>
           (case decode d2 bs of (rest, d3) \<Rightarrow> (out @ rest, d3))))"

subsection \<open>\<open>split("\\n\\n")\<close>, \<open>trim()\<close> and \<open>match(/data: ([\\s\\S]*)/)\<close>\<close>

text \<open>\<open>s.split("\\n\\n")\<close>: the pieces between the occurrences of two line feeds, found
  from left to right without overlap; always at least one piece.\<close>

fun split_nn :: "jsstring \<Rightarrow> jsstring list" where
  "split_nn [] = [[]]"
| "split_nn [a] = [[a]]"
| "split_nn (a # b # cs) =
     (if a = 10 \<and> b = 10 then [] # split_nn cs
      else (case split_nn (b # cs) of
              [] \<Rightarrow> [[a]]
            | p # ps \<Rightarrow> (a # p) # ps))"

text \<open>White space and line terminators of ECMAScript, which \<open>trim()\<close> strips and
  \<open>\\s\<close> matches.\<close>

definition is_space :: "nat \<Rightarrow> bool" where
  "is_space c =
     (c = 9 \<or> c = 10 \<or> c = 11 \<or> c = 12 \<or> c = 13 \<or> c = 32 \<or> c = 0xA0 \<or> c = 0x1680
      \<or> (0x2000 \<le> c \<and> c \<le> 0x200A) \<or> c = 0x2028 \<or> c = 0x2029 \<or> c = 0x202F
      \<or> c = 0x205F \<or> c = 0x3000 \<or> c = 0xFEFF)"

definition trim :: "jsstring \<Rightarrow> jsstring" where
  "trim s = rev (dropWhile is_space (rev (dropWhile is_space s)))"

text \<open>\<open>line.match(/data: ([\\s\\S]*)/)\<close>, reduced to its first capture group: the
  pattern is not anchored, so the match is the leftmost occurrence of \<open>data: \<close>, and
  \<open>[\\s\\S]*\<close> takes every code unit after it up to the end of the string. \<open>None\<close>
  is the \<open>null\<close> of no match.\<close>

fun match_data :: "jsstring \<Rightarrow> jsstring option" where
  "match_data [] = None"
| "match_data (c # cs) =
     (if take 6 (c # cs) = str ''data: '' then Some (drop 6 (c # cs))
      else match_data cs)"

section \<open>Structured payloads\<close>

text \<open>
  The values \<open>JSON.parse\<close> returns. An object is the list of its own properties, each
  key once; a number is given by its value, and \<open>JInf\<close> is \<open>Infinity\<close> or \<open>-Infinity\<close>, the
  result for a number beyond the range of a double. \<open>JSON.parse\<close> itself belongs to the platform:
  the relay and the client take it as the parameter \<open>JSON_parse\<close>, where \<open>None\<close> is the
  \<open>SyntaxError\<close> it throws.
\<close>

datatype json =
  JNull
| JBool bool
| JNum rat
| JInf
| JStr jsstring
| JArr "json list"
| JObj "(jsstring \<times> json) list"

type_synonym parser = "jsstring \<Rightarrow> json option"

text \<open>Truthiness, as \<open>if (delta)\<close> and \<open>parsed && ...\<close> test it.\<close>

fun truthy :: "json \<Rightarrow> bool" where
  "truthy JNull = False"
| "truthy (JBool b) = b"
| "truthy (JNum n) = (n \<noteq> 0)"
| "truthy JInf = True"
| "truthy (JStr s) = (s \<noteq> [])"
| "truthy (JArr xs) = True"
| "truthy (JObj kvs) = True"

text \<open>A value as \<open>JSON.stringify\<close> writes it, that is, as the reader of the written
  frame gets it back: \<open>Infinity\<close> and \<open>-Infinity\<close> are written as \<open>null\<close>, at any depth.\<close>

primrec stringified :: "json \<Rightarrow> json" where
  "stringified JNull = JNull"
| "stringified (JBool b) = JBool b"
| "stringified (JNum n) = JNum n"
| "stringified JInf = JNull"
| "stringified (JStr s) = JStr s"
| "stringified (JArr xs) = JArr (map stringified xs)"
| "stringified (JObj kvs) = JObj (map (map_prod id stringified) kvs)"

text \<open>Reading one of the properties \<open>choices\<close>, \<open>delta\<close>, \<open>content\<close>, \<open>chunk\<close> of a
  value that is not \<open>null\<close>: only an object can have it; \<open>None\<close> is \<open>undefined\<close>.\<close>

fun property :: "jsstring \<Rightarrow> json \<Rightarrow> json option" where
  "property k (JObj kvs) = map_of kvs k"
| "property k v = None"

text \<open>Reading \<open>[0]\<close> of a value that is not \<open>null\<close>: the first element of an array, the
  first code unit of a string, the property \<open>"0"\<close> of an object.\<close>

fun index0 :: "json \<Rightarrow> json option" where
  "index0 (JArr xs) = (case xs of [] \<Rightarrow> None | x # rest \<Rightarrow> Some x)"
| "index0 (JStr s) = (case s of [] \<Rightarrow> None | c # rest \<Rightarrow> Some (JStr [c]))"
| "index0 (JObj kvs) = map_of kvs (str ''0'')"
| "index0 v = None"

datatype access = Throws | Undefined | Defined json

text \<open>\<open>parsed.choices?.[0]?.delta?.content\<close> (stream.ts line 108). Reading \<open>choices\<close> of
  \<open>null\<close> throws a \<open>TypeError\<close>; each \<open>?.\<close> ends the chain with \<open>undefined\<close> when the
  value before it is \<open>null\<close> or \<open>undefined\<close>.\<close>

definition delta_content :: "json \<Rightarrow> access" where
  "delta_content parsed =
     (if parsed = JNull then Throws
      else case property (str ''choices'') parsed of
        None \<Rightarrow> Undefined
      | Some choices \<Rightarrow>
          if choices = JNull then Undefined
          else case index0 choices of
            None \<Rightarrow> Undefined
          | Some choice \<Rightarrow>
              if choice = JNull then Undefined
              else case property (str ''delta'') choice of
                None \<Rightarrow> Undefined
              | Some delta \<Rightarrow>
                  if delta = JNull then Undefined
                  else case property (str ''content'') delta of
                    None \<Rightarrow> Undefined
                  | Some content \<Rightarrow> Defined content)"

section \<open>The relay: \<open>handler\<close> of pages/api/stream.ts\<close>

text \<open>
  What the handler writes to the client, frame by frame:
  \<^item> \<open>Chunk v\<close> is \<open>data: {"chunk": v}\<close> and a blank line, \<open>v\<close> being the value the
    reader of the frame finds under \<open>chunk\<close>;
  \<^item> \<open>Done\<close> is the line \<open>event: done\<close>, then \<open>data: [DONE]\<close> and a blank line
    (two calls of \<open>res.write\<close>, always together);
  \<^item> \<open>Error m\<close> is \<open>data: {"error": m}\<close> and a blank line.
\<close>

datatype event = Chunk json | Done | Error jsstring

text \<open>The effects of one run of the handler, in the order they happen: \<open>res.setHeader\<close>,
  \<open>res.status\<close>, \<open>res.write\<close> of an event, \<open>res.end()\<close> and the call of \<open>fetch\<close> to the
  upstream provider.\<close>

datatype action =
  SetHeader string string
| Status nat
| Emit event
| End
| Fetch

text \<open>One \<open>await reader.read()\<close> that is not the end of the stream: a value, no value,
  or a rejection (with the text \<open>String(err)\<close> gives). The upstream body is the list of
  these up to the read that reports \<open>done\<close>, or up to the first rejection. An upstream
  that stalls for ever has no such list: the handler then waits in \<open>reader.read()\<close>, and
  nothing is said here about that case.\<close>

datatype read = ReadValue "byte list" | ReadUndefined | ReadThrows jsstring

text \<open>The response of the upstream provider: \<open>response.ok\<close>, \<open>response.body\<close> (\<open>None\<close>
  when it is \<open>null\<close>) and what \<open>await response.text()\<close> gives, \<open>Inl\<close> when it rejects.\<close>

record response =
  ok :: bool
  body :: "read list option"
  body_text :: "jsstring + jsstring"

text \<open>What \<open>await fetch(...)\<close> gives: a rejection or a response.\<close>

datatype upstream = FetchThrows jsstring | Responds response

text \<open>The inbound request, as far as the handler reads it: \<open>req.method\<close>.\<close>

record request =
  req_method :: string

text \<open>Lines 89 to 95: the payload of one part of the buffer, \<open>None\<close> where the loop
  goes on to the next part (\<open>continue\<close>).\<close>

definition frame_payload :: "jsstring \<Rightarrow> jsstring option" where
  "frame_payload part =
     (let line = trim part in
      if line = [] then None
      else case match_data line of
        None \<Rightarrow> None
      | Some m \<Rightarrow> Some (trim m))"

text \<open>Lines 104 to 116: the \<open>try\<close> around \<open>JSON.parse\<close> and the extraction of the delta,
  and its \<open>catch\<close>, which forwards the payload as it is.\<close>

definition forward_payload :: "parser \<Rightarrow> jsstring \<Rightarrow> action list" where
  "forward_payload JSON_parse data =
     (case JSON_parse data of
        None \<Rightarrow> [Emit (Chunk (JStr data))]
      | Some parsed \<Rightarrow>
          (case delta_content parsed of
             Throws \<Rightarrow> [Emit (Chunk (JStr data))]
           | Undefined \<Rightarrow> []
           | Defined delta \<Rightarrow>
               if truthy delta then [Emit (Chunk (stringified delta))] else []))"

text \<open>Lines 89 to 117: the loop over the complete parts. The flag says that the handler
  has returned from inside the loop (after \<open>[DONE]\<close>).\<close>

fun for_parts :: "parser \<Rightarrow> jsstring list \<Rightarrow> action list \<times> bool" where
  "for_parts JSON_parse [] = ([], False)"
| "for_parts JSON_parse (part # parts) =
     (case frame_payload part of
        None \<Rightarrow> for_parts JSON_parse parts
      | Some data \<Rightarrow>
          if data = str ''[DONE]'' then ([Emit Done, End], True)
          else (case for_parts JSON_parse parts of
                  (acts, returned) \<Rightarrow> (forward_payload JSON_parse data @ acts, returned)))"

text \<open>Lines 79 to 87: one value read from the upstream goes through the decoder and is
  appended to the buffer, which is split; the last piece is the new buffer
  (\<open>parts.pop() || ""\<close>), the pieces before it are complete.\<close>

definition leftover :: "jsstring list \<Rightarrow> jsstring" where
  "leftover parts = (if parts = [] then [] else last parts)"

definition parse_pass ::
    "decoder \<Rightarrow> jsstring \<Rightarrow> byte list \<Rightarrow> decoder \<times> jsstring list \<times> jsstring" where
  "parse_pass d buffer v =
     (case decode d v of
        (txt, d') \<Rightarrow>
          (let parts = split_nn (buffer @ txt)
           in (d', butlast parts, leftover parts)))"

text \<open>Lines 73 to 123: the read loop, and the \<open>done\<close> written when the upstream closes.
  A rejected read is caught at line 124.\<close>

fun read_loop :: "parser \<Rightarrow> decoder \<Rightarrow> jsstring \<Rightarrow> read list \<Rightarrow> action list" where
  "read_loop JSON_parse d buffer [] = [Emit Done, End]"
| "read_loop JSON_parse d buffer (ReadThrows err # rs) = [Emit (Error err), End]"
| "read_loop JSON_parse d buffer (ReadUndefined # rs) = read_loop JSON_parse d buffer rs"
| "read_loop JSON_parse d buffer (ReadValue v # rs) =
     (case parse_pass d buffer v of
        (d', parts, buffer') \<Rightarrow>
          (case for_parts JSON_parse parts of
             (acts, returned) \<Rightarrow>
               if returned then acts
               else acts @ read_loop JSON_parse d' buffer' rs))"

text \<open>The handler. \<open>api_key\<close> is \<open>process.env.OPENAI_API_KEY\<close>, \<open>None\<close> when the variable
  is not set; \<open>up\<close> is what the upstream provider answers when it is asked. The request
  sent to the provider is built from the body of the inbound request and plays no part
  in what the handler writes. The two error branches under \<open>Responds\<close> are the test
  \<open>!response.ok || !response.body\<close> of line 62; every rejection inside the \<open>try\<close> ends
  in the \<open>catch\<close> of line 124, which writes \<open>String(err)\<close> as an error event.\<close>

definition handler :: "parser \<Rightarrow> string option \<Rightarrow> request \<Rightarrow> upstream \<Rightarrow> action list" where
  "handler JSON_parse api_key req up =
     [SetHeader ''Content-Type'' ''text/event-stream'',
      SetHeader ''Cache-Control'' ''no-cache, no-transform'',
      SetHeader ''Connection'' ''keep-alive''] @
     (if api_key = None \<or> api_key = Some [] then
        [Emit (Error (str ''OPENAI_API_KEY not set'')), End]
      else if req_method req \<noteq> ''POST'' then
        [Status 405, Emit (Error (str ''Method Not Allowed'')), End]
      else
        Fetch #
        (case up of
           FetchThrows err \<Rightarrow> [Emit (Error err), End]
         | Responds response \<Rightarrow>
             (case body response of
                None \<Rightarrow>
                  (case body_text response of
                     Inl err \<Rightarrow> [Emit (Error err), End]
                   | Inr txt \<Rightarrow> [Emit (Error txt), End])
              | Some reads \<Rightarrow>
                  if \<not> ok response then
                    (case body_text response of
                       Inl err \<Rightarrow> [Emit (Error err), End]
                     | Inr txt \<Rightarrow> [Emit (Error txt), End])
                  else read_loop JSON_parse new_TextDecoder [] reads)))"

text \<open>The events among the effects of a run.\<close>

fun events :: "action list \<Rightarrow> event list" where
  "events [] = []"
| "events (Emit e # acts) = e # events acts"
| "events (a # acts) = events acts"

section \<open>The client: \<open>ConsultationForm\<close>\<close>

text \<open>The state the callbacks of \<open>fetchEventSource\<close> work on: the local \<open>buffer\<close> and
  the two pieces of React state, \<open>output\<close> (what is shown) and \<open>loading\<close>.\<close>

record client =
  buffer :: jsstring
  "output" :: jsstring
  loading :: bool

text \<open>\<open>onmessage(ev)\<close>, on \<open>ev.data\<close>.\<close>

definition onmessage :: "parser \<Rightarrow> jsstring \<Rightarrow> client \<Rightarrow> client" where
  "onmessage JSON_parse data c =
     (case JSON_parse (if data = [] then str ''{}'' else data) of
        None \<Rightarrow> c\<lparr>buffer := buffer c @ data, output := buffer c @ data\<rparr>
      | Some parsed \<Rightarrow>
          (if truthy parsed then
             (case property (str ''chunk'') parsed of
                Some (JStr chunk) \<Rightarrow> c\<lparr>buffer := buffer c @ chunk, output := buffer c @ chunk\<rparr>
              | _ \<Rightarrow> c)
           else c))"

definition onclose :: "client \<Rightarrow> client" where
  "onclose c = c\<lparr>loading := False\<rparr>"

section \<open>Notions the properties are stated with\<close>

text \<open>The terminal events, and the shape of a session's events: zero or more chunks,
  then one terminal event, then nothing.\<close>

fun is_terminal :: "event \<Rightarrow> bool" where
  "is_terminal (Chunk v) = False"
| "is_terminal Done = True"
| "is_terminal (Error m) = True"

definition one_terminal :: "event list \<Rightarrow> bool" where
  "one_terminal evs =
     (evs \<noteq> [] \<and> is_terminal (last evs) \<and> list_all (\<lambda>e. \<not> is_terminal e) (butlast evs))"

text \<open>A piece of text with no blank-line boundary in it.\<close>

definition unbroken :: "jsstring \<Rightarrow> bool" where
  "unbroken s = (split_nn s = [s])"

text \<open>The frames a buffer was cut into, put together again.\<close>

definition rejoin :: "jsstring list \<Rightarrow> jsstring \<Rightarrow> jsstring" where
  "rejoin parts rest = concat (map (\<lambda>p. p @ [10, 10]) parts) @ rest"

text \<open>A complete part for which the loop writes nothing and goes on: an empty part, a
  part with no payload, a payload with no content delta in it.\<close>

definition silent :: "parser \<Rightarrow> jsstring \<Rightarrow> bool" where
  "silent JSON_parse part = (for_parts JSON_parse [part] = ([], False))"

text \<open>The complete parts of a whole upstream body delivered as the values \<open>chunks\<close>: the
  pieces of the decoded text that a blank-line boundary follows.\<close>

definition complete_frames :: "byte list list \<Rightarrow> jsstring list" where
  "complete_frames chunks = butlast (split_nn (fst (decode new_TextDecoder (concat chunks))))"



definition idle :: "decoder \<Rightarrow> bool" where
  "idle d = (code_point d = 0 \<and> bytes_seen d = 0 \<and> bytes_needed d = 0
     \<and> lower_boundary d = 0x80 \<and> upper_boundary d = 0xBF)"

text \<open>The payload of a frame as the specification words it: the lines of the frame are
  matched against the prefix \<open>data:\<close>, and the rest of the matched line, trimmed, is the
  payload.\<close>

fun lines_of :: "jsstring \<Rightarrow> jsstring list" where
  "lines_of [] = [[]]"
| "lines_of (c # cs) =
     (if c = 10 then [] # lines_of cs
      else (case lines_of cs of [] \<Rightarrow> [[c]] | l # ls \<Rightarrow> (c # l) # ls))"

fun first_data_line :: "jsstring list \<Rightarrow> jsstring option" where
  "first_data_line [] = None"
| "first_data_line (l # ls) =
     (if take 5 l = str ''data:'' then Some (trim (drop 5 l)) else first_data_line ls)"

definition spec_payload :: "jsstring \<Rightarrow> jsstring option" where
  "spec_payload frame = first_data_line (lines_of frame)"

text \<open>The frames of the upstream provider used in the examples: a payload whose first
  choice carries the content delta \<open>s\<close>, as \<open>JSON.parse\<close> returns it, the payloads for
  the deltas "A" and "B" as they come over the wire, and the bytes of a stream that
  carries "A", then "B", then the sentinel.\<close>

definition delta_json :: "jsstring \<Rightarrow> json" where
  "delta_json s =
     JObj [(str ''choices'', JArr [JObj [(str ''delta'', JObj [(str ''content'', JStr s)])]])]"

definition payload_A :: jsstring where
  \<open>payload_A = str ''{"choices":[{"delta":{"content":"A"}}]}''\<close>

definition payload_B :: jsstring where
  \<open>payload_B = str ''{"choices":[{"delta":{"content":"B"}}]}''\<close>

definition wire_AB :: "byte list" where
  "wire_AB = str ''data: '' @ payload_A @ [10, 10] @ str ''data: '' @ payload_B @ [10, 10]
     @ str ''data: [DONE]'' @ [10, 10]"

definition error_data :: jsstring where
  \<open>error_data = str ''{"error":"boom"}''\<close>

text \<open>\<open>JSON.parse\<close> on the payloads of the examples, as a table. The only other
  text the examples hand to it is \<open>hello\<close>, which is not JSON.\<close>

definition table_parse :: parser where
  "table_parse s =
     (if s = payload_A then Some (delta_json (str ''A''))
      else if s = payload_B then Some (delta_json (str ''B''))
      else if s = error_data then Some (JObj [(str ''error'', JStr (str ''boom''))])
      else None)"

definition post :: request where
  "post = \<lparr>req_method = ''POST''\<rparr>"

definition streaming :: "read list \<Rightarrow> upstream" where
  "streaming reads = Responds \<lparr>ok = True, body = Some reads, body_text = Inr []\<rparr>"

section \<open>Splitting, decoding and the read loop\<close>

lemma split_nn_nonempty: "split_nn s \<noteq> []"
  by (induction s rule: split_nn.induct) (auto split: list.splits)

lemma split_nn_single: "split_nn s = [p] \<Longrightarrow> p = s"
  by (induction s arbitrary: p rule: split_nn.induct) (auto split: list.splits if_splits simp: split_nn_nonempty)

lemma split_nn_Cons:
  "\<not> (a = 10 \<and> b = 10) \<Longrightarrow> split_nn (a # b # cs) = (a # hd (split_nn (b # cs))) # tl (split_nn (b # cs))"
  using split_nn_nonempty [of "b # cs"] by (cases "split_nn (b # cs)") auto

lemma split_nn_append:
  "split_nn (s @ t) = butlast (split_nn s) @ split_nn (last (split_nn s) @ t)"
proof (induction s arbitrary: t rule: split_nn.induct)
  case 1
  show ?case by simp
next
  case (2 a)
  show ?case by simp
next
  case (3 a b cs)
  show ?case
  proof (cases "a = 10 \<and> b = 10")
    case True
    with 3 show ?thesis by (simp add: split_nn_nonempty)
  next
    case False
    obtain p ps where P: "split_nn (b # cs) = p # ps"
      using split_nn_nonempty [of "b # cs"] by (cases "split_nn (b # cs)") auto
    have IH: "split_nn ((b # cs) @ t) = butlast (p # ps) @ split_nn (last (p # ps) @ t)"
      using 3(2) [OF False, of t] P by simp
    have A: "split_nn (a # b # cs) = (a # p) # ps"
      using False P by auto
    have L: "split_nn (a # b # cs @ t) =
        (case split_nn (b # cs @ t) of [] \<Rightarrow> [[a]] | q # qs \<Rightarrow> (a # q) # qs)"
      using False by auto
    show ?thesis
    proof (cases ps)
      case Nil
      then have "p = b # cs" using P split_nn_single by blast
      with Nil A show ?thesis by (simp del: split_nn.simps)
    next
      case (Cons q qs)
      have "split_nn (b # cs @ t) = p # butlast (q # qs) @ split_nn (last (q # qs) @ t)"
        using IH Cons by (simp del: split_nn.simps)
      then have "split_nn (a # b # cs @ t) = (a # p) # butlast (q # qs) @ split_nn (last (q # qs) @ t)"
        using L by (simp del: split_nn.simps)
      then show ?thesis using A Cons by (simp del: split_nn.simps)
    qed
  qed
qed

lemma decode_append:
  "decode d (xs @ ys) =
     (case decode d xs of (t1, d1) \<Rightarrow> (case decode d1 ys of (t2, d2) \<Rightarrow> (t1 @ t2, d2)))"
  by (induction xs arbitrary: d) (auto split: prod.splits)

lemma for_parts_append:
  "for_parts P (ps @ qs) =
     (case for_parts P ps of (a1, r1) \<Rightarrow>
        if r1 then (a1, True) else (case for_parts P qs of (a2, r2) \<Rightarrow> (a1 @ a2, r2)))"
  by (induction ps) (auto split: prod.splits option.splits)

lemma parse_pass_append:
  "parse_pass d b (v1 @ v2) =
    (case parse_pass d b v1 of (d1, ps1, b1) \<Rightarrow>
       (case parse_pass d1 b1 v2 of (d2, ps2, b2) \<Rightarrow> (d2, ps1 @ ps2, b2)))"
proof -
  obtain t1 d1 where D1: "decode d v1 = (t1, d1)" by (cases "decode d v1")
  obtain t2 d2 where D2: "decode d1 v2 = (t2, d2)" by (cases "decode d1 v2")
  have D: "decode d (v1 @ v2) = (t1 @ t2, d2)" by (simp add: decode_append D1 D2)
  have S: "split_nn (b @ t1 @ t2) = butlast (split_nn (b @ t1)) @ split_nn (last (split_nn (b @ t1)) @ t2)"
    using split_nn_append [of "b @ t1" t2] by simp
  show ?thesis
    by (simp add: parse_pass_def D D1 D2 S leftover_def split_nn_nonempty butlast_append Let_def)
qed

lemma read_loop_join:
  "read_loop P d b (ReadValue v1 # ReadValue v2 # rs) = read_loop P d b (ReadValue (v1 @ v2) # rs)"
  by (simp add: parse_pass_append for_parts_append split: prod.splits)


lemma split_nn_first: "split_nn (b # cs) = p # ps \<Longrightarrow> p = [] \<or> hd p = b"
  by (cases cs) (auto split: if_splits list.splits)

lemma split_nn_pieces: "list_all (\<lambda>p. split_nn p = [p]) (split_nn s)"
proof (induction s rule: split_nn.induct)
  case 1 show ?case by simp
next
  case (2 a) show ?case by simp
next
  case (3 a b cs)
  show ?case
  proof (cases "a = 10 \<and> b = 10")
    case True with 3 show ?thesis by simp
  next
    case False
    obtain p ps where P: "split_nn (b # cs) = p # ps"
      using split_nn_nonempty [of "b # cs"] by (cases "split_nn (b # cs)") auto
    have A: "split_nn (a # b # cs) = (a # p) # ps" using False P by auto
    have IH: "list_all (\<lambda>p. split_nn p = [p]) (p # ps)" using 3(2) [OF False] P by simp
    have F: "p = [] \<or> hd p = b" using split_nn_first [OF P] .
    have "split_nn (a # p) = [a # p]"
    proof (cases p)
      case Nil then show ?thesis by simp
    next
      case (Cons x xs)
      then have "x = b" using F by simp
      moreover have "split_nn (x # xs) = [x # xs]" using IH Cons by simp
      ultimately show ?thesis using False Cons by auto
    qed
    then show ?thesis using A IH by (simp del: split_nn.simps)
  qed
qed

lemma split_nn_join:
  "concat (map (\<lambda>p. p @ [10, 10]) (butlast (split_nn s))) @ last (split_nn s) = s"
proof (induction s rule: split_nn.induct)
  case 1 show ?case by simp
next
  case (2 a) show ?case by simp
next
  case (3 a b cs)
  show ?case
  proof (cases "a = 10 \<and> b = 10")
    case True with 3 show ?thesis by (simp add: split_nn_nonempty)
  next
    case False
    obtain p ps where P: "split_nn (b # cs) = p # ps"
      using split_nn_nonempty [of "b # cs"] by (cases "split_nn (b # cs)") auto
    have A: "split_nn (a # b # cs) = (a # p) # ps" using False P by auto
    have IH: "concat (map (\<lambda>p. p @ [10, 10]) (butlast (p # ps))) @ last (p # ps) = b # cs"
      using 3(2) [OF False] P by simp
    show ?thesis unfolding A using IH by (cases ps) (simp_all del: split_nn.simps)
  qed
qed

lemma read_loop_cong:
  "(\<And>d' b'. read_loop P d' b' xs = read_loop P d' b' ys) \<Longrightarrow>
     read_loop P d b (ReadValue v # xs) = read_loop P d b (ReadValue v # ys)"
  by (simp split: prod.splits)

lemma read_loop_concat:
  "chunks \<noteq> [] \<Longrightarrow>
     read_loop P d b (map ReadValue chunks @ rs) = read_loop P d b (ReadValue (concat chunks) # rs)"
proof (induction chunks arbitrary: d b)
  case Nil then show ?case by simp
next
  case (Cons c cs)
  show ?case
  proof (cases "cs = []")
    case True then show ?thesis by simp
  next
    case False
    have "read_loop P d b (map ReadValue (c # cs) @ rs) =
          read_loop P d b (ReadValue c # ReadValue (concat cs) # rs)"
      using Cons.IH [OF False] read_loop_cong [of P "map ReadValue cs @ rs" "ReadValue (concat cs) # rs" d b c]
      by simp
    then show ?thesis by (simp only: read_loop_join concat.simps)
  qed
qed

lemma decode_ascii:
  "bytes_needed d = 0 \<Longrightarrow> list_all (\<lambda>b. b < 128) bs \<Longrightarrow>
     decode d bs = (bs, if bs = [] then d else d\<lparr>bom_seen := True\<rparr>)"
proof (induction bs arbitrary: d)
  case Nil show ?case by simp
next
  case (Cons b bs)
  have H: "utf8_handler d b = (d, [b])" using Cons.prems by (simp add: utf8_handler_def utf8_lead_def)
  have S: "serialize d [b] = (d\<lparr>bom_seen := True\<rparr>, [b])" using Cons.prems by (cases "bom_seen d") (auto simp: utf16_def)
  have "decode (d\<lparr>bom_seen := True\<rparr>) bs = (bs, if bs = [] then d\<lparr>bom_seen := True\<rparr> else d\<lparr>bom_seen := True\<rparr>)"
    using Cons.IH [of "d\<lparr>bom_seen := True\<rparr>"] Cons.prems by simp
  then show ?case using H S by simp
qed


lemma split_nn_leftover: "unbroken (leftover (split_nn s))"
proof -
  have "list_all (\<lambda>p. split_nn p = [p]) (split_nn s)" by (rule split_nn_pieces)
  then have "split_nn (last (split_nn s)) = [last (split_nn s)]"
    using split_nn_nonempty [of s] by (simp add: list_all_iff)
  then show ?thesis by (simp add: unbroken_def leftover_def split_nn_nonempty)
qed

lemma split_nn_complete: "list_all unbroken (butlast (split_nn s))"
proof -
  have "list_all (\<lambda>p. split_nn p = [p]) (split_nn s)" by (rule split_nn_pieces)
  then show ?thesis by (auto simp: list_all_iff unbroken_def dest: in_set_butlastD)
qed

section \<open>Properties of the relay\<close>

text \<open>
  Claim C2. Delivering the bytes of one read as two reads, cut at any point, changes
  nothing in what the relay does: the read loop, from any decoder state and buffer, and
  the whole handler produce the same effects, so a frame that arrives in two pieces
  yields the one event it yields whole. After each pass over a value read, the buffer
  holds no blank-line boundary, each complete part holds none either, and the parts,
  each followed by its blank line, and the buffer are together exactly the old buffer
  and the text decoded from the value.
\<close>

theorem split_chunk_same_events:
  "read_loop JSON_parse d buf (ReadValue v1 # ReadValue v2 # rs)
     = read_loop JSON_parse d buf (ReadValue (v1 @ v2) # rs)
   \<and> handler JSON_parse key req (streaming (ReadValue v1 # ReadValue v2 # rs))
     = handler JSON_parse key req (streaming (ReadValue (v1 @ v2) # rs))
   \<and> (case parse_pass d buf v of
        (d', parts, buf') \<Rightarrow>
          unbroken buf' \<and> list_all unbroken parts
          \<and> rejoin parts buf' = buf @ fst (decode d v))"
proof -
  have J: "\<And>d b. read_loop JSON_parse d b (ReadValue v1 # ReadValue v2 # rs)
     = read_loop JSON_parse d b (ReadValue (v1 @ v2) # rs)"
    by (rule read_loop_join)
  have H: "handler JSON_parse key req (streaming (ReadValue v1 # ReadValue v2 # rs))
     = handler JSON_parse key req (streaming (ReadValue (v1 @ v2) # rs))"
    unfolding handler_def streaming_def using J by (simp del: read_loop.simps)
  obtain tx d' where D: "decode d v = (tx, d')" by (cases "decode d v")
  have P: "parse_pass d buf v = (d', butlast (split_nn (buf @ tx)), leftover (split_nn (buf @ tx)))"
    by (simp add: parse_pass_def D Let_def)
  have R: "rejoin (butlast (split_nn (buf @ tx))) (leftover (split_nn (buf @ tx))) = buf @ tx"
    using split_nn_join [of "buf @ tx"] by (simp add: rejoin_def leftover_def split_nn_nonempty)
  show ?thesis
    using J H P R D split_nn_leftover [of "buf @ tx"] split_nn_complete [of "buf @ tx"]
    by (simp del: read_loop.simps)
qed


theorem split_chunk_same_events_witness:
  "events (handler table_parse (Some ''sk-test'') post
      (streaming [ReadValue (str ''data: he''), ReadValue (str ''llo'' @ [10, 10])]))
     = [Chunk (JStr (str ''hello'')), Done]"
proof -
  have D: "decode new_TextDecoder (str ''data: hello'' @ [10, 10])
      = (str ''data: hello'' @ [10, 10], new_TextDecoder\<lparr>bom_seen := True\<rparr>)"
    using decode_ascii [of new_TextDecoder "str ''data: hello'' @ [10, 10]"]
    by (simp add: new_TextDecoder_def str_def)
  have F: "frame_payload (str ''data: hello'') = Some (str ''hello'')"
    by (simp add: frame_payload_def trim_def is_space_def str_def)
  have T: "table_parse (str ''hello'') = None"
    by (simp add: table_parse_def payload_A_def payload_B_def error_data_def str_def)
  have N: "str ''hello'' \<noteq> str ''[DONE]''" by (simp add: str_def)
  have S: "split_nn (str ''data: hello'' @ [10, 10]) = [str ''data: hello'', []]"
    by (simp add: str_def)
  have J: "str ''data: he'' @ str ''llo'' @ [10, 10] = str ''data: hello'' @ [10, 10]"
    by (simp add: str_def)
  have "handler table_parse (Some ''sk-test'') post
      (streaming [ReadValue (str ''data: he''), ReadValue (str ''llo'' @ [10, 10])])
    = handler table_parse (Some ''sk-test'') post
      (streaming [ReadValue (str ''data: hello'' @ [10, 10])])"
    using split_chunk_same_events [of table_parse new_TextDecoder "[]" "str ''data: he''"
        "str ''llo'' @ [10, 10]" "[]" "Some ''sk-test''" post "[]"] J
    by (simp del: read_loop.simps)
  then show ?thesis
    by (simp add: handler_def post_def streaming_def parse_pass_def D S F T N leftover_def
        forward_payload_def)
qed

lemma wire_AB_ascii: "list_all (\<lambda>b. b < 128) wire_AB"
  by (simp add: wire_AB_def payload_A_def payload_B_def str_def)

lemma decode_wire_AB: "decode new_TextDecoder wire_AB = (wire_AB, new_TextDecoder\<lparr>bom_seen := True\<rparr>)"
proof -
  have "wire_AB \<noteq> []" by (simp add: wire_AB_def str_def)
  moreover have "bytes_needed new_TextDecoder = 0" by (simp add: new_TextDecoder_def)
  ultimately show ?thesis using decode_ascii [OF _ wire_AB_ascii, of new_TextDecoder] by simp
qed

lemma split_wire_AB:
  "split_nn wire_AB = [str ''data: '' @ payload_A, str ''data: '' @ payload_B, str ''data: [DONE]'', []]"
  by (simp add: wire_AB_def payload_A_def payload_B_def str_def)

lemma frame_payload_A: "frame_payload (str ''data: '' @ payload_A) = Some payload_A"
  by (simp add: frame_payload_def trim_def is_space_def payload_A_def str_def)

lemma frame_payload_B: "frame_payload (str ''data: '' @ payload_B) = Some payload_B"
  by (simp add: frame_payload_def trim_def is_space_def payload_B_def str_def)

lemma frame_payload_DONE: "frame_payload (str ''data: [DONE]'') = Some (str ''[DONE]'')"
  by (simp add: frame_payload_def trim_def is_space_def str_def)

lemma payloads_not_DONE: "payload_A \<noteq> str ''[DONE]''" "payload_B \<noteq> str ''[DONE]''"
  by (simp_all add: payload_A_def payload_B_def str_def)

lemma delta_content_delta_json: "delta_content (delta_json s) = Defined (JStr s)"
  by (simp add: delta_content_def delta_json_def str_def)

lemma for_parts_wire_AB:
  assumes "JSON_parse payload_A = Some (delta_json (str ''A''))"
    and "JSON_parse payload_B = Some (delta_json (str ''B''))"
  shows "for_parts JSON_parse [str ''data: '' @ payload_A, str ''data: '' @ payload_B, str ''data: [DONE]'']
     = ([Emit (Chunk (JStr (str ''A''))), Emit (Chunk (JStr (str ''B''))), Emit Done, End], True)"
proof -
  have A: "forward_payload JSON_parse payload_A = [Emit (Chunk (JStr (str ''A'')))]"
    using assms(1) by (simp add: forward_payload_def delta_content_delta_json str_def)
  have B: "forward_payload JSON_parse payload_B = [Emit (Chunk (JStr (str ''B'')))]"
    using assms(2) by (simp add: forward_payload_def delta_content_delta_json str_def)
  show ?thesis
    by (simp add: frame_payload_A frame_payload_B frame_payload_DONE payloads_not_DONE A B)
qed

lemma read_loop_values:
  "read_loop JSON_parse new_TextDecoder [] (map ReadValue chunks) =
     (case for_parts JSON_parse (complete_frames chunks) of
        (acts, returned) \<Rightarrow> if returned then acts else acts @ [Emit Done, End])"
proof (cases "chunks = []")
  case True
  then show ?thesis by (simp add: complete_frames_def)
next
  case False
  have "read_loop JSON_parse new_TextDecoder [] (map ReadValue chunks @ [])
      = read_loop JSON_parse new_TextDecoder [] [ReadValue (concat chunks)]"
    by (rule read_loop_concat [OF False])
  then show ?thesis
    by (simp add: parse_pass_def complete_frames_def Let_def split: prod.splits)
qed

lemma for_parts_silent:
  "list_all (silent JSON_parse) quiet \<Longrightarrow>
     for_parts JSON_parse (quiet @ rest) = for_parts JSON_parse rest"
proof (induction quiet)
  case Nil
  show ?case by simp
next
  case (Cons q quiet)
  then have Q: "for_parts JSON_parse [q] = ([], False)"
    and IH: "for_parts JSON_parse (quiet @ rest) = for_parts JSON_parse rest"
    by (simp_all add: silent_def)
  have "for_parts JSON_parse ([q] @ (quiet @ rest)) = for_parts JSON_parse (quiet @ rest)"
    using for_parts_append [of JSON_parse "[q]" "quiet @ rest"] Q
    by (simp del: for_parts.simps split: prod.splits)
  then show ?case using IH by (simp del: for_parts.simps)
qed

lemma for_parts_delta:
  assumes "frame_payload f = Some p" and "p \<noteq> str ''[DONE]''"
    and "JSON_parse p = Some j" and "delta_content j = Defined (JStr s)" and "s \<noteq> []"
  shows "for_parts JSON_parse (f # rest) =
     (Emit (Chunk (JStr s)) # fst (for_parts JSON_parse rest), snd (for_parts JSON_parse rest))"
  using assms by (simp add: forward_payload_def split_beta)

text \<open>
  Claim C1. Take any upstream byte stream, delivered in reads cut anywhere, whose
  complete frames are: a frame whose payload parses to a record with the content delta
  "A", then one with the content delta "B", then one whose payload is the sentinel.
  Frames for which the loop writes nothing (empty ones, ones with no payload or with no
  content delta) may stand before and between them, and anything may follow the
  sentinel. The relay emits exactly chunk "A", chunk "B" and done, in this order, each
  once, and nothing else.
\<close>

theorem deltas_then_sentinel:
  assumes "key \<noteq> []"
    and "complete_frames chunks = quiet0 @ frameA # quiet1 @ frameB # quiet2 @ last_frame # others"
    and "list_all (silent JSON_parse) quiet0"
    and "list_all (silent JSON_parse) quiet1"
    and "list_all (silent JSON_parse) quiet2"
    and "frame_payload frameA = Some pA" and "pA \<noteq> str ''[DONE]''"
    and "JSON_parse pA = Some jA" and "delta_content jA = Defined (JStr (str ''A''))"
    and "frame_payload frameB = Some pB" and "pB \<noteq> str ''[DONE]''"
    and "JSON_parse pB = Some jB" and "delta_content jB = Defined (JStr (str ''B''))"
    and "frame_payload last_frame = Some (str ''[DONE]'')"
  shows "events (handler JSON_parse (Some key) post (streaming (map ReadValue chunks)))
     = [Chunk (JStr (str ''A'')), Chunk (JStr (str ''B'')), Done]"
proof -
  have NA: "str ''A'' \<noteq> []" and NB: "str ''B'' \<noteq> []" by (simp_all add: str_def)
  have S: "for_parts JSON_parse (quiet2 @ last_frame # others) = ([Emit Done, End], True)"
    using for_parts_silent [OF assms(5)] assms(14) by simp
  have "for_parts JSON_parse (frameB # quiet2 @ last_frame # others)
      = ([Emit (Chunk (JStr (str ''B''))), Emit Done, End], True)"
    using for_parts_delta [of frameB pB JSON_parse jB "str ''B''" "quiet2 @ last_frame # others"]
      assms(10-13) NB S
    by (simp del: for_parts.simps)
  then have B: "for_parts JSON_parse (quiet1 @ frameB # quiet2 @ last_frame # others)
      = ([Emit (Chunk (JStr (str ''B''))), Emit Done, End], True)"
    using for_parts_silent [OF assms(4)] by (simp del: for_parts.simps)
  have "for_parts JSON_parse (frameA # quiet1 @ frameB # quiet2 @ last_frame # others)
      = ([Emit (Chunk (JStr (str ''A''))), Emit (Chunk (JStr (str ''B''))), Emit Done, End], True)"
    using for_parts_delta [of frameA pA JSON_parse jA "str ''A''"
        "quiet1 @ frameB # quiet2 @ last_frame # others"]
      assms(6-9) NA B
    by (simp del: for_parts.simps)
  then have A: "for_parts JSON_parse (quiet0 @ frameA # quiet1 @ frameB # quiet2 @ last_frame # others)
      = ([Emit (Chunk (JStr (str ''A''))), Emit (Chunk (JStr (str ''B''))), Emit Done, End], True)"
    using for_parts_silent [OF assms(3)] by (simp del: for_parts.simps)
  have "read_loop JSON_parse new_TextDecoder [] (map ReadValue chunks)
      = [Emit (Chunk (JStr (str ''A''))), Emit (Chunk (JStr (str ''B''))), Emit Done, End]"
    by (simp only: read_loop_values assms(2) A prod.case if_True)
  then show ?thesis
    using assms(1) by (simp add: handler_def post_def streaming_def del: read_loop.simps)
qed

theorem deltas_then_sentinel_witness:
  "events (handler table_parse (Some ''sk-test'') post
      (streaming (map ReadValue [take 9 wire_AB, take 50 (drop 9 wire_AB), [], drop 59 wire_AB])))
     = [Chunk (JStr (str ''A'')), Chunk (JStr (str ''B'')), Done]"
proof -
  have A: "table_parse payload_A = Some (delta_json (str ''A''))" by (simp add: table_parse_def)
  have "payload_B \<noteq> payload_A" by (simp add: payload_A_def payload_B_def str_def)
  then have B: "table_parse payload_B = Some (delta_json (str ''B''))" by (simp add: table_parse_def)
  have K: "''sk-test'' \<noteq> []" by simp
  have C: "concat [take 9 wire_AB, take 50 (drop 9 wire_AB), [], drop 59 wire_AB] = wire_AB"
    by (simp add: wire_AB_def payload_A_def payload_B_def str_def)
  have F: "complete_frames [take 9 wire_AB, take 50 (drop 9 wire_AB), [], drop 59 wire_AB]
      = [] @ (str ''data: '' @ payload_A) # [] @ (str ''data: '' @ payload_B) # []
          @ str ''data: [DONE]'' # []"
    by (simp only: complete_frames_def C decode_wire_AB split_wire_AB fst_conv) simp
  have Q: "list_all (silent table_parse) []" by simp
  show ?thesis
    using deltas_then_sentinel [OF K F Q Q Q frame_payload_A payloads_not_DONE(1) A
        delta_content_delta_json frame_payload_B payloads_not_DONE(2) B
        delta_content_delta_json frame_payload_DONE] .
qed

text \<open>
  Claim C10. When the upstream closes, whatever the buffer still holds is dropped: the
  close path writes the synthesized done and nothing else, whatever the buffer is. Over
  a whole stream of values, what the handler does is fixed by the complete parts of
  the decoded text alone; the piece after the last blank-line boundary plays no part.
\<close>

theorem residual_discarded:
  "read_loop JSON_parse d buf [] = [Emit Done, End]
   \<and> read_loop JSON_parse new_TextDecoder [] (map ReadValue chunks) =
       (case for_parts JSON_parse (butlast (split_nn (fst (decode new_TextDecoder (concat chunks))))) of
          (acts, returned) \<Rightarrow> if returned then acts else acts @ [Emit Done, End])"
proof (cases "chunks = []")
  case True
  then show ?thesis by simp
next
  case False
  have "read_loop JSON_parse new_TextDecoder [] (map ReadValue chunks @ [])
      = read_loop JSON_parse new_TextDecoder [] [ReadValue (concat chunks)]"
    by (rule read_loop_concat [OF False])
  then show ?thesis
    by (simp add: parse_pass_def Let_def split: prod.splits)
qed

theorem residual_discarded_witness:
  "events (handler table_parse (Some ''sk-test'') post
      (streaming [ReadValue (str ''data: hello'' @ [10, 10] @ str ''data: tail'')]))
     = [Chunk (JStr (str ''hello'')), Done]"
proof -
  define w where "w = str ''data: hello'' @ [10, 10] @ str ''data: tail''"
  have "decode new_TextDecoder w = (w, if w = [] then new_TextDecoder else new_TextDecoder\<lparr>bom_seen := True\<rparr>)"
    by (rule decode_ascii) (simp_all add: new_TextDecoder_def w_def str_def)
  then have D: "fst (decode new_TextDecoder w) = w" by simp
  have S: "split_nn w = [str ''data: hello'', str ''data: tail'']"
    by (simp add: w_def str_def)
  have F: "frame_payload (str ''data: hello'') = Some (str ''hello'')"
    by (simp add: frame_payload_def trim_def is_space_def str_def)
  have T: "table_parse (str ''hello'') = None"
    by (simp add: table_parse_def payload_A_def payload_B_def error_data_def str_def)
  have N: "str ''hello'' \<noteq> str ''[DONE]''" by (simp add: str_def)
  have "read_loop table_parse new_TextDecoder [] (map ReadValue [w])
      = [Emit (Chunk (JStr (str ''hello''))), Emit Done, End]"
    using residual_discarded [of table_parse new_TextDecoder "[]" "[w]"]
    by (simp add: D S F T N forward_payload_def del: read_loop.simps)
  then show ?thesis
    by (simp add: handler_def post_def streaming_def w_def del: read_loop.simps)
qed

lemma for_parts_shape:
  "\<exists>cs. fst (for_parts JSON_parse parts)
     = map (\<lambda>v. Emit (Chunk v)) cs @ (if snd (for_parts JSON_parse parts) then [Emit Done, End] else [])"
proof (induction parts)
  case Nil
  show ?case by simp
next
  case (Cons part parts)
  then obtain cs where IH: "fst (for_parts JSON_parse parts)
     = map (\<lambda>v. Emit (Chunk v)) cs @ (if snd (for_parts JSON_parse parts) then [Emit Done, End] else [])"
    by blast
  have F: "\<And>data. \<exists>ds. forward_payload JSON_parse data = map (\<lambda>v. Emit (Chunk v)) ds"
  proof -
    fix data
    show "\<exists>ds. forward_payload JSON_parse data = map (\<lambda>v. Emit (Chunk v)) ds"
      by (auto simp: forward_payload_def split: option.splits access.splits
          intro: exI [of _ "[]"] exI [of _ "[x]" for x])
  qed
  show ?case
  proof (cases "frame_payload part")
    case None
    with IH show ?thesis by auto
  next
    case (Some data)
    show ?thesis
    proof (cases "data = str ''[DONE]''")
      case True
      with Some show ?thesis by (auto intro: exI [of _ "[]"])
    next
      case False
      obtain ds where "forward_payload JSON_parse data = map (\<lambda>v. Emit (Chunk v)) ds"
        using F by blast
      with Some False IH show ?thesis
        by (auto simp: split_beta intro: exI [of _ "ds @ cs"])
    qed
  qed
qed

lemma read_loop_shape:
  "\<exists>cs t. read_loop JSON_parse d buf reads = map (\<lambda>v. Emit (Chunk v)) cs @ [Emit t, End]
     \<and> is_terminal t"
proof (induction reads arbitrary: d buf)
  case Nil
  show ?case by (auto intro: exI [of _ "[]"] exI [of _ Done])
next
  case (Cons r rs)
  show ?case
  proof (cases r)
    case (ReadThrows err)
    then show ?thesis by (auto intro: exI [of _ "[]"] exI [of _ "Error err"])
  next
    case ReadUndefined
    then show ?thesis using Cons.IH by simp
  next
    case (ReadValue v)
    obtain d' parts buf' where P: "parse_pass d buf v = (d', parts, buf')"
      by (cases "parse_pass d buf v")
    obtain acts returned where A: "for_parts JSON_parse parts = (acts, returned)"
      by (cases "for_parts JSON_parse parts")
    obtain cs where S: "acts = map (\<lambda>v. Emit (Chunk v)) cs @ (if returned then [Emit Done, End] else [])"
      using for_parts_shape [of JSON_parse parts] A by auto
    show ?thesis
    proof (cases returned)
      case True
      have "read_loop JSON_parse d buf (r # rs) = map (\<lambda>v. Emit (Chunk v)) cs @ [Emit Done, End]"
        using ReadValue P A S True by simp
      then show ?thesis by (auto intro: exI [of _ Done])
    next
      case False
      obtain cs' t where R: "read_loop JSON_parse d' buf' rs = map (\<lambda>v. Emit (Chunk v)) cs' @ [Emit t, End]"
        and T: "is_terminal t"
        using Cons.IH by blast
      have "read_loop JSON_parse d buf (r # rs) = map (\<lambda>v. Emit (Chunk v)) (cs @ cs') @ [Emit t, End]"
        using ReadValue P A S False R by simp
      with T show ?thesis by blast
    qed
  qed
qed

lemma events_chunks: "events (map (\<lambda>v. Emit (Chunk v)) cs @ rest) = map Chunk cs @ events rest"
  by (induction cs) auto

lemma one_terminal_chunks: "is_terminal t \<Longrightarrow> one_terminal (map Chunk cs @ [t])"
  by (auto simp: one_terminal_def list_all_iff butlast_append)

lemma read_loop_one_terminal:
  "one_terminal (events (read_loop JSON_parse d buf reads))
   \<and> last (read_loop JSON_parse d buf reads) = End
   \<and> count_list (read_loop JSON_parse d buf reads) End = 1
   \<and> read_loop JSON_parse d buf reads \<noteq> []"
proof -
  obtain cs t where R: "read_loop JSON_parse d buf reads = map (\<lambda>v. Emit (Chunk v)) cs @ [Emit t, End]"
    and T: "is_terminal t"
    using read_loop_shape by blast
  have C: "count_list (map (\<lambda>v. Emit (Chunk v)) cs) End = 0"
    by (induction cs) auto
  show ?thesis
    unfolding R using T C by (simp add: events_chunks one_terminal_chunks)
qed

text \<open>
  Claim C4. A frame whose payload is the sentinel makes the handler write done and
  return: the parts after it in the same buffer and every later read are not looked
  at. In every session (any credential, request and upstream behaviour) the events are
  zero or more chunks followed by exactly one terminal event, done or error, and the
  response is ended once, as the last effect.
\<close>

theorem sentinel_terminal:
  "(frame_payload part = Some (str ''[DONE]'') \<longrightarrow>
      for_parts JSON_parse (part # rest) = ([Emit Done, End], True))
   \<and> (parse_pass d buf v = (d', before @ part # rest, buf')
        \<and> for_parts JSON_parse before = (acts, False)
        \<and> frame_payload part = Some (str ''[DONE]'') \<longrightarrow>
      read_loop JSON_parse d buf (ReadValue v # rs) = acts @ [Emit Done, End])
   \<and> one_terminal (events (handler JSON_parse key req up))
   \<and> last (handler JSON_parse key req up) = End
   \<and> count_list (handler JSON_parse key req up) End = 1"
proof -
  have A: "frame_payload part = Some (str ''[DONE]'') \<longrightarrow>
      for_parts JSON_parse (part # rest) = ([Emit Done, End], True)"
    by simp
  have B: "parse_pass d buf v = (d', before @ part # rest, buf')
        \<and> for_parts JSON_parse before = (acts, False)
        \<and> frame_payload part = Some (str ''[DONE]'') \<longrightarrow>
      read_loop JSON_parse d buf (ReadValue v # rs) = acts @ [Emit Done, End]"
    by (simp add: for_parts_append)
  have T: "one_terminal [Error m]" for m by (simp add: one_terminal_def)
  have C: "one_terminal (events (handler JSON_parse key req up))
   \<and> last (handler JSON_parse key req up) = End
   \<and> count_list (handler JSON_parse key req up) End = 1"
    using read_loop_one_terminal [of JSON_parse new_TextDecoder "[]"]
    by (simp add: handler_def T split: upstream.splits option.splits sum.splits
        del: read_loop.simps)
  show ?thesis using A B C by blast
qed

theorem sentinel_terminal_witness:
  "events (handler table_parse (Some ''sk-test'') post
      (streaming [ReadValue (str ''data: hello'' @ [10, 10] @ str ''data: [DONE]'' @ [10, 10]
                     @ str ''data: late'' @ [10, 10]),
                  ReadValue (str ''data: more'' @ [10, 10])]))
     = [Chunk (JStr (str ''hello'')), Done]"
proof -
  define w where "w = str ''data: hello'' @ [10, 10] @ str ''data: [DONE]'' @ [10, 10]
                     @ str ''data: late'' @ [10, 10]"
  define w2 where "w2 = str ''data: more'' @ [10, 10]"
  have "decode new_TextDecoder w = (w, if w = [] then new_TextDecoder else new_TextDecoder\<lparr>bom_seen := True\<rparr>)"
    by (rule decode_ascii) (simp_all add: new_TextDecoder_def w_def str_def)
  moreover have "w \<noteq> []" by (simp add: w_def str_def)
  ultimately have D: "decode new_TextDecoder w = (w, new_TextDecoder\<lparr>bom_seen := True\<rparr>)" by simp
  have S: "split_nn w = [str ''data: hello'', str ''data: [DONE]'', str ''data: late'', []]"
    by (simp add: w_def str_def)
  have P: "parse_pass new_TextDecoder [] w
      = (new_TextDecoder\<lparr>bom_seen := True\<rparr>, [str ''data: hello''] @ str ''data: [DONE]'' # [str ''data: late''], [])"
    by (simp add: parse_pass_def D S leftover_def)
  have F: "frame_payload (str ''data: hello'') = Some (str ''hello'')"
    by (simp add: frame_payload_def trim_def is_space_def str_def)
  have T: "table_parse (str ''hello'') = None"
    by (simp add: table_parse_def payload_A_def payload_B_def error_data_def str_def)
  have N: "str ''hello'' \<noteq> str ''[DONE]''" by (simp add: str_def)
  have B: "for_parts table_parse [str ''data: hello''] = ([Emit (Chunk (JStr (str ''hello'')))], False)"
    by (simp add: F T N forward_payload_def)
  have "read_loop table_parse new_TextDecoder [] (ReadValue w # [ReadValue w2])
      = [Emit (Chunk (JStr (str ''hello'')))] @ [Emit Done, End]"
    using sentinel_terminal [of "str ''data: [DONE]''" table_parse "[str ''data: late'']"
        new_TextDecoder "[]" w "new_TextDecoder\<lparr>bom_seen := True\<rparr>" "[str ''data: hello'']" "[]"
        "[Emit (Chunk (JStr (str ''hello'')))]" "[ReadValue w2]"]
      P B frame_payload_DONE
    by blast
  then show ?thesis
    by (simp add: handler_def post_def streaming_def w_def w2_def del: read_loop.simps)
qed

text \<open>
  Claim C5. A payload that \<open>JSON.parse\<close> rejects is forwarded as it is: the \<open>catch\<close>
  writes one chunk that carries the payload text unchanged. In the loop over the parts,
  such a payload (the sentinel is recognised before parsing is tried) adds this chunk
  and the loop goes on with the parts that follow: nothing is dropped, no error is
  written, and the handler does not return because of it.
\<close>

theorem malformed_payload_forwarded:
  "(JSON_parse data = None \<longrightarrow> forward_payload JSON_parse data = [Emit (Chunk (JStr data))])
   \<and> (frame_payload part = Some data \<and> data \<noteq> str ''[DONE]'' \<and> JSON_parse data = None \<longrightarrow>
        for_parts JSON_parse (part # rest) =
          (Emit (Chunk (JStr data)) # fst (for_parts JSON_parse rest),
           snd (for_parts JSON_parse rest)))"
  by (simp add: forward_payload_def split_beta)

theorem malformed_payload_forwarded_witness:
  "for_parts table_parse [str ''data: hello'', str ''data: [DONE]'']
     = ([Emit (Chunk (JStr (str ''hello''))), Emit Done, End], True)"
proof -
  have F: "frame_payload (str ''data: hello'') = Some (str ''hello'')"
    by (simp add: frame_payload_def trim_def is_space_def str_def)
  have T: "table_parse (str ''hello'') = None"
    by (simp add: table_parse_def payload_A_def payload_B_def error_data_def str_def)
  have N: "str ''hello'' \<noteq> str ''[DONE]''" by (simp add: str_def)
  have R: "for_parts table_parse [str ''data: [DONE]''] = ([Emit Done, End], True)"
    by (simp add: frame_payload_DONE)
  have "for_parts table_parse (str ''data: hello'' # [str ''data: [DONE]'']) =
          (Emit (Chunk (JStr (str ''hello''))) # fst (for_parts table_parse [str ''data: [DONE]'']),
           snd (for_parts table_parse [str ''data: [DONE]'']))"
    using malformed_payload_forwarded [of table_parse "str ''hello''" "str ''data: hello''"
        "[str ''data: [DONE]'']"] F T N
    by blast
  then show ?thesis by (simp only: R fst_conv snd_conv)
qed

text \<open>
  Claim C7, as the code has it. A request whose method is not POST never reaches the
  upstream provider and gets exactly one error event. The check of the credential comes
  first: when the credential is configured, the effects are the three headers, the
  status 405, the error "Method Not Allowed" and the end of the response.
\<close>

theorem non_post_rejected:
  assumes "req_method req \<noteq> ''POST''"
  shows "Fetch \<notin> set (handler JSON_parse key req up)
   \<and> (\<exists>m. events (handler JSON_parse key req up) = [Error m])
   \<and> (key \<noteq> None \<and> key \<noteq> Some [] \<longrightarrow>
        handler JSON_parse key req up =
          [SetHeader ''Content-Type'' ''text/event-stream'',
           SetHeader ''Cache-Control'' ''no-cache, no-transform'',
           SetHeader ''Connection'' ''keep-alive'',
           Status 405, Emit (Error (str ''Method Not Allowed'')), End])"
  using assms by (simp add: handler_def)

theorem non_post_rejected_witness:
  "handler table_parse (Some ''sk-test'') \<lparr>req_method = ''GET''\<rparr> (FetchThrows []) =
          [SetHeader ''Content-Type'' ''text/event-stream'',
           SetHeader ''Cache-Control'' ''no-cache, no-transform'',
           SetHeader ''Connection'' ''keep-alive'',
           Status 405, Emit (Error (str ''Method Not Allowed'')), End]"
proof -
  have M: "req_method \<lparr>req_method = ''GET''\<rparr> \<noteq> ''POST''" by simp
  have K: "Some ''sk-test'' \<noteq> None \<and> Some ''sk-test'' \<noteq> Some []" by simp
  show ?thesis
    using non_post_rejected [OF M, of table_parse "Some ''sk-test''" "FetchThrows []"] K by blast
qed

text \<open>Claim C7 as it is worded fails where the credential is missing: a GET request
  then gets the error of the missing credential, and no status 405.\<close>

theorem non_post_without_credential:
  "events (handler table_parse None \<lparr>req_method = ''GET''\<rparr> (FetchThrows []))
     = [Error (str ''OPENAI_API_KEY not set'')]
   \<and> Status 405 \<notin> set (handler table_parse None \<lparr>req_method = ''GET''\<rparr> (FetchThrows []))"
  by (simp add: handler_def)

text \<open>
  Claim C8. When the upstream provider answers a POST of a configured relay with a
  status that is not a success, or with no body, the handler reads the text of the
  answer, writes one error event that carries it and ends the response: no chunk and
  no done. (Should reading that text fail, the one error event carries the failure.)
\<close>

theorem upstream_failure_one_error:
  assumes "key \<noteq> []" and "\<not> ok r \<or> body r = None"
  shows "handler JSON_parse (Some key) post (Responds r) =
          [SetHeader ''Content-Type'' ''text/event-stream'',
           SetHeader ''Cache-Control'' ''no-cache, no-transform'',
           SetHeader ''Connection'' ''keep-alive'',
           Fetch,
           Emit (Error (case body_text r of Inl err \<Rightarrow> err | Inr diagnostic \<Rightarrow> diagnostic)),
           End]
   \<and> events (handler JSON_parse (Some key) post (Responds r)) =
          [Error (case body_text r of Inl err \<Rightarrow> err | Inr diagnostic \<Rightarrow> diagnostic)]"
  using assms by (auto simp: handler_def post_def split: option.splits sum.splits)

theorem upstream_failure_one_error_witness:
  "events (handler table_parse (Some ''sk-test'') post
      (Responds \<lparr>ok = False, body = Some [ReadValue wire_AB],
                 body_text = Inr (str ''quota exceeded'')\<rparr>))
     = [Error (str ''quota exceeded'')]"
proof -
  have K: "''sk-test'' \<noteq> []" by simp
  have R: "\<not> ok \<lparr>ok = False, body = Some [ReadValue wire_AB], body_text = Inr (str ''quota exceeded'')\<rparr>
     \<or> body \<lparr>ok = False, body = Some [ReadValue wire_AB], body_text = Inr (str ''quota exceeded'')\<rparr> = None"
    by simp
  show ?thesis
    using upstream_failure_one_error [OF K R, of table_parse] by simp
qed

section \<open>One character through the decoder\<close>

lemma mod_digit: "x < m \<Longrightarrow> (k * m + x) mod m = (x::nat)"
  by simp

lemma lead_byte_mods:
  "q < 32 \<Longrightarrow> (192 + q) mod 32 = (q::nat)"
  "a < 16 \<Longrightarrow> (224 + a) mod 16 = (a::nat)"
  "e < 8 \<Longrightarrow> (240 + e) mod 8 = (e::nat)"
  "r < 64 \<Longrightarrow> (128 + r) mod 64 = (r::nat)"
  using mod_digit [of q 32 6] mod_digit [of a 16 14] mod_digit [of e 8 30] mod_digit [of r 64 2]
  by simp_all


lemma lead2:
  assumes "idle d" and "2 \<le> q" and "q < 32"
  shows "utf8_handler d (192 + q) = (d\<lparr>code_point := q, bytes_needed := 1\<rparr>, [])"
  using assms by (simp add: idle_def utf8_handler_def utf8_lead_def lead_byte_mods)

lemma lead3:
  assumes "idle d" and "a < 16"
  shows "utf8_handler d (224 + a) =
    (d\<lparr>code_point := a, bytes_needed := 2,
       lower_boundary := (if a = 0 then 0xA0 else 0x80),
       upper_boundary := (if a = 13 then 0x9F else 0xBF)\<rparr>, [])"
  using assms by (simp add: idle_def utf8_handler_def utf8_lead_def lead_byte_mods)

lemma lead4:
  assumes "idle d" and "e \<le> 4"
  shows "utf8_handler d (240 + e) =
    (d\<lparr>code_point := e, bytes_needed := 3,
       lower_boundary := (if e = 0 then 0x90 else 0x80),
       upper_boundary := (if e = 4 then 0x8F else 0xBF)\<rparr>, [])"
  using assms by (simp add: idle_def utf8_handler_def utf8_lead_def lead_byte_mods)

lemma continuation_more:
  assumes "bytes_needed d \<noteq> 0" and "lower_boundary d \<le> 128 + b" and "128 + b \<le> upper_boundary d"
    and "b < 64" and "bytes_seen d + 1 \<noteq> bytes_needed d"
  shows "utf8_handler d (128 + b) =
    (d\<lparr>code_point := code_point d * 64 + b, bytes_seen := bytes_seen d + 1,
       lower_boundary := 0x80, upper_boundary := 0xBF\<rparr>, [])"
  using assms by (simp add: utf8_handler_def lead_byte_mods Let_def)

lemma continuation_last:
  assumes "bytes_needed d \<noteq> 0" and "lower_boundary d \<le> 128 + b" and "128 + b \<le> upper_boundary d"
    and "b < 64" and "bytes_seen d + 1 = bytes_needed d"
  shows "utf8_handler d (128 + b) =
    (reset_sequence (d\<lparr>code_point := code_point d * 64 + b, bytes_seen := bytes_seen d + 1,
       lower_boundary := 0x80, upper_boundary := 0xBF\<rparr>), [code_point d * 64 + b])"
  using assms by (simp add: utf8_handler_def lead_byte_mods Let_def)




lemma digits:
  fixes n :: nat
  shows "n = n div 64 * 64 + n mod 64" and "n mod 64 < 64"
  by simp_all









section \<open>The payload of a frame\<close>

lemma take_marker: "take 6 (str ''data: '' @ v) = str ''data: ''"
  by (simp add: str_def)

lemma drop_marker: "drop 6 (str ''data: '' @ v) = v"
  by (simp add: str_def)

lemma marker_at_front: "take 6 s = str ''data: '' \<Longrightarrow> s = str ''data: '' @ drop 6 s"
  using append_take_drop_id [of 6 s] by simp

lemma match_data_None: "match_data s = None \<longleftrightarrow> (\<forall>u v. s \<noteq> u @ str ''data: '' @ v)"
proof (induction s)
  case Nil
  show ?case by (simp add: str_def)
next
  case (Cons c cs)
  show ?case
  proof (cases "take 6 (c # cs) = str ''data: ''")
    case True
    have "c # cs = str ''data: '' @ drop 6 (c # cs)"
      by (rule marker_at_front [OF True])
    then have "c # cs = [] @ str ''data: '' @ drop 6 (c # cs)"
      unfolding append_Nil .
    then have "\<exists>u v. c # cs = u @ str ''data: '' @ v" by blast
    then show ?thesis using True by simp
  next
    case False
    have X: "(\<exists>u v. c # cs = u @ str ''data: '' @ v) \<longleftrightarrow> (\<exists>u v. cs = u @ str ''data: '' @ v)"
    proof
      assume "\<exists>u v. c # cs = u @ str ''data: '' @ v"
      then obtain u v where E: "c # cs = u @ str ''data: '' @ v" by blast
      have "u \<noteq> []"
      proof
        assume "u = []"
        then have "take 6 (c # cs) = str ''data: ''" using E take_marker by simp
        then show False using False by simp
      qed
      then obtain u' where "u = c # u'" using E by (cases u) auto
      then show "\<exists>u v. cs = u @ str ''data: '' @ v" using E by auto
    next
      assume "\<exists>u v. cs = u @ str ''data: '' @ v"
      then obtain u v where "cs = u @ str ''data: '' @ v" by blast
      then have "c # cs = (c # u) @ str ''data: '' @ v" by simp
      then show "\<exists>u v. c # cs = u @ str ''data: '' @ v" by blast
    qed
    have M: "match_data (c # cs) = match_data cs" using False by simp
    have "match_data cs = None \<longleftrightarrow> (\<forall>u v. c # cs \<noteq> u @ str ''data: '' @ v)"
      using Cons.IH X by blast
    then show ?thesis by (simp only: M)
  qed
qed

lemma match_data_Some:
  "match_data s = Some m \<Longrightarrow>
     \<exists>u. s = u @ str ''data: '' @ m
       \<and> (\<forall>u' v'. s = u' @ str ''data: '' @ v' \<longrightarrow> length u \<le> length u')"
proof (induction s)
  case Nil
  then show ?case by simp
next
  case (Cons c cs)
  show ?case
  proof (cases "take 6 (c # cs) = str ''data: ''")
    case True
    then have "m = drop 6 (c # cs)" using Cons.prems by simp
    then have "c # cs = str ''data: '' @ m" using marker_at_front [OF True] by (simp only:)
    then have "c # cs = [] @ str ''data: '' @ m" unfolding append_Nil .
    then show ?thesis by (intro exI [of _ "[]"]) simp
  next
    case False
    then have "match_data cs = Some m" using Cons.prems by simp
    then obtain u where U: "cs = u @ str ''data: '' @ m"
      and L: "\<forall>u' v'. cs = u' @ str ''data: '' @ v' \<longrightarrow> length u \<le> length u'"
      using Cons.IH by blast
    have "length (c # u) \<le> length u'" if E: "c # cs = u' @ str ''data: '' @ v'" for u' v'
    proof -
      have "u' \<noteq> []"
      proof
        assume "u' = []"
        then have "take 6 (c # cs) = str ''data: ''" using E take_marker by simp
        then show False using False by simp
      qed
      then obtain w where W: "u' = c # w" using E by (cases u') auto
      then have "cs = w @ str ''data: '' @ v'" using E by simp
      then have "length u \<le> length w" using L by blast
      then show ?thesis using W by simp
    qed
    moreover have "c # cs = (c # u) @ str ''data: '' @ m" using U by simp
    ultimately show ?thesis by blast
  qed
qed

lemma match_data_leftmost:
  assumes "s = u @ str ''data: '' @ v"
    and "\<forall>u' v'. s = u' @ str ''data: '' @ v' \<longrightarrow> length u \<le> length u'"
  shows "match_data s = Some v"
proof -
  have "match_data s \<noteq> None" using assms(1) match_data_None by blast
  then obtain m where M: "match_data s = Some m" by blast
  then obtain w where W: "s = w @ str ''data: '' @ m"
    and L: "\<forall>u' v'. s = u' @ str ''data: '' @ v' \<longrightarrow> length w \<le> length u'"
    using match_data_Some by blast
  have "length u \<le> length w" using assms(2) W by blast
  moreover have "length w \<le> length u" using L assms(1) by blast
  ultimately have "length u = length w" by (rule le_antisym)
  then have "u = w \<and> str ''data: '' @ v = str ''data: '' @ m"
    using assms(1) W by (metis append_eq_append_conv)
  then show ?thesis using M by simp
qed

text \<open>
  Claim C6, as the code has it. The payload of a part is found by one search in the
  whole trimmed part, not line by line: the leftmost occurrence of the six characters
  \<open>data: \<close> (with the space, at any place in the part), and everything after it up to
  the end of the part, trimmed. A part in which these six characters do not occur has
  no payload, and nothing is written for it.
\<close>

theorem payload_after_first_marker:
  "(frame_payload part = None \<longleftrightarrow> (\<forall>u v. trim part \<noteq> u @ str ''data: '' @ v))
   \<and> (trim part = u @ str ''data: '' @ v
        \<and> (\<forall>u' v'. trim part = u' @ str ''data: '' @ v' \<longrightarrow> length u \<le> length u')
      \<longrightarrow> frame_payload part = Some (trim v))
   \<and> (frame_payload part = None \<longrightarrow>
        for_parts JSON_parse (part # rest) = for_parts JSON_parse rest)"
proof -
  have A: "frame_payload part = None \<longleftrightarrow> (\<forall>u v. trim part \<noteq> u @ str ''data: '' @ v)"
  proof (cases "trim part = []")
    case True
    then show ?thesis by (simp add: frame_payload_def str_def)
  next
    case False
    then show ?thesis
      using match_data_None [of "trim part"]
      by (auto simp: frame_payload_def split: option.splits)
  qed
  have B: "frame_payload part = Some (trim v)"
    if "trim part = u @ str ''data: '' @ v"
      and "\<forall>u' v'. trim part = u' @ str ''data: '' @ v' \<longrightarrow> length u \<le> length u'"
  proof -
    have "match_data (trim part) = Some v" using match_data_leftmost [OF that] .
    moreover have "trim part \<noteq> []" using that(1) by (simp add: str_def)
    ultimately show ?thesis by (simp add: frame_payload_def)
  qed
  have C: "frame_payload part = None \<longrightarrow>
        for_parts JSON_parse (part # rest) = for_parts JSON_parse rest"
    by simp
  show ?thesis using A B C by blast
qed

theorem payload_after_first_marker_witness:
  "frame_payload (str ''  data: a'' @ [10] @ str ''retry: 5 '') = Some (str ''a'' @ [10] @ str ''retry: 5'')"
proof -
  have T: "trim (str ''  data: a'' @ [10] @ str ''retry: 5 '')
      = [] @ str ''data: '' @ (str ''a'' @ [10] @ str ''retry: 5'')"
    by (simp add: trim_def is_space_def str_def)
  have L: "\<forall>u' v'. trim (str ''  data: a'' @ [10] @ str ''retry: 5 '') = u' @ str ''data: '' @ v'
      \<longrightarrow> length ([]::jsstring) \<le> length u'"
    by simp
  have V: "trim (str ''a'' @ [10] @ str ''retry: 5'') = str ''a'' @ [10] @ str ''retry: 5''"
    by (simp add: trim_def is_space_def str_def)
  have "frame_payload (str ''  data: a'' @ [10] @ str ''retry: 5 '')
      = Some (trim (str ''a'' @ [10] @ str ''retry: 5''))"
    using payload_after_first_marker [of "str ''  data: a'' @ [10] @ str ''retry: 5 ''" "[]"
        "str ''a'' @ [10] @ str ''retry: 5''"] T L
    by blast
  then show ?thesis by (simp only: V)
qed

text \<open>Claim C6 as it is worded fails. Read line by line, the part \<open>data: a\<close>, \<open>id: 1\<close>
  has the payload \<open>a\<close>, and the part \<open>xdata: y\<close> has no line that starts with the
  prefix; the code takes the rest of the whole part in the first, and finds a payload
  in the second.\<close>

theorem payload_not_line_based:
  "frame_payload (str ''data: a'' @ [10] @ str ''id: 1'') = Some (str ''a'' @ [10] @ str ''id: 1'')
   \<and> spec_payload (str ''data: a'' @ [10] @ str ''id: 1'') = Some (str ''a'')
   \<and> frame_payload (str ''xdata: y'') = Some (str ''y'')
   \<and> spec_payload (str ''xdata: y'') = None"
  by (simp add: frame_payload_def spec_payload_def trim_def is_space_def str_def)

section \<open>Properties of the client\<close>

text \<open>
  Claim C9, as the code has it. An error event reaches \<open>onmessage\<close> as a message whose
  data is the record \<open>{"error": m}\<close>. It parses, it has no string \<open>chunk\<close>, and so
  \<open>onmessage\<close> changes nothing: the buffer, the output shown and the loading flag stay
  as they were. The message is not shown and nothing is marked as failed.
\<close>

theorem error_event_ignored:
  assumes "JSON_parse data = Some (JObj [(str ''error'', JStr m)])" and "data \<noteq> []"
  shows "onmessage JSON_parse data c = c"
  using assms by (simp add: onmessage_def str_def)

theorem error_event_ignored_witness:
  "onmessage table_parse error_data \<lparr>buffer = str ''Summ'', output = str ''Summ'', loading = True\<rparr>
     = \<lparr>buffer = str ''Summ'', output = str ''Summ'', loading = True\<rparr>"
proof -
  have "error_data \<noteq> payload_A" "error_data \<noteq> payload_B"
    by (simp_all add: error_data_def payload_A_def payload_B_def str_def)
  then have P: "table_parse error_data = Some (JObj [(str ''error'', JStr (str ''boom''))])"
    by (simp add: table_parse_def)
  have N: "error_data \<noteq> []" by (simp add: error_data_def str_def)
  show ?thesis
    using error_event_ignored [of table_parse error_data "str ''boom''"
        "\<lparr>buffer = str ''Summ'', output = str ''Summ'', loading = True\<rparr>"] P N
    by blast
qed

text \<open>Claim C9 as it is worded fails: after the error event "boom", and after the
  channel has closed, nothing is shown, as after a stream with no event at all.\<close>

theorem error_event_not_surfaced:
  "onmessage table_parse error_data \<lparr>buffer = [], output = [], loading = True\<rparr>
     = \<lparr>buffer = [], output = [], loading = True\<rparr>
   \<and> onclose (onmessage table_parse error_data \<lparr>buffer = [], output = [], loading = True\<rparr>)
     = \<lparr>buffer = [], output = [], loading = False\<rparr>"
  by (simp add: onmessage_def onclose_def table_parse_def error_data_def payload_A_def
      payload_B_def str_def)

end
